theory Spec2Isabelle
  imports Complex_Main
begin

section \<open>Python values used by the KPI calculator\<close>

text \<open>
  The module \<^verbatim>\<open>kpi_calculator_version2.py\<close> computes with Python numbers. It is
  embedded at two levels.

  The first level reads the formulas: a finite number is a \<^typ>\<open>real\<close> and the
  arithmetic is the exact one. The operator \<^verbatim>\<open>/\<close> raises
  \<^verbatim>\<open>ZeroDivisionError\<close> on a zero divisor, and \<^verbatim>\<open>float('inf')\<close> is a value of its
  own. Python's \<^verbatim>\<open>0\<close> and \<^verbatim>\<open>0.0\<close> compare equal and are the same value there.

  The second level reads the machine numbers: an argument is an \<^verbatim>\<open>int\<close> of any size or
  a \<^verbatim>\<open>float\<close> (a binary64 number, an infinity or NaN), every float operation rounds,
  and a conversion of an \<^verbatim>\<open>int\<close> beyond the float range raises
  \<^verbatim>\<open>OverflowError\<close>. The statements on exceptions, on signs and on rounding are made
  at this level; its functions carry the suffix \<open>_num\<close>.
\<close>

datatype py_error = ZeroDivisionError | OverflowError

datatype py_float = Fin real | PosInf | NegInf | NaN

definition py_div :: "real \<Rightarrow> real \<Rightarrow> py_error + real" where
  "py_div a b = (if b = 0 then Inl ZeroDivisionError else Inr (a / b))"

text \<open>Sequencing: an exception raised by the first computation leaves the function.\<close>

definition and_then :: "py_error + 'a \<Rightarrow> ('a \<Rightarrow> py_error + 'b) \<Rightarrow> py_error + 'b" where
  "and_then r f = (case r of Inl e \<Rightarrow> Inl e | Inr v \<Rightarrow> f v)"

text \<open>
  The builtin \<^verbatim>\<open>sum\<close> starts from \<^verbatim>\<open>0\<close> and adds the items from left to right.
\<close>

definition py_sum :: "real list \<Rightarrow> real" where
  "py_sum xs = foldl (+) 0 xs"

text \<open>
  Rounding to the nearest integer, a tie going to the even one: the rule of binary64
  arithmetic and of the builtin \<^verbatim>\<open>round\<close>.
\<close>

definition round_half_even :: "real \<Rightarrow> int" where
  "round_half_even y =
     (let f = \<lfloor>y\<rfloor>; d = y - of_int f
      in if d < 1 / 2 then f
         else if 1 / 2 < d then f + 1
         else if even f then f else f + 1)"

section \<open>Constants\<close>

definition METHANOL_CONSUMPTION_PER_KWH :: real where
  "METHANOL_CONSUMPTION_PER_KWH = 0.9"

definition BATTERY_CAPACITY_AH :: real where
  "BATTERY_CAPACITY_AH = 105"

definition BATTERY_VOLTAGE :: real where
  "BATTERY_VOLTAGE = 12.8"

definition BATTERY_CAPACITY_WH :: real where
  "BATTERY_CAPACITY_WH = BATTERY_CAPACITY_AH * BATTERY_VOLTAGE"

definition FUEL_CELL_OUTPUT_W :: real where
  "FUEL_CELL_OUTPUT_W = 125"

definition FUEL_CELL_EFFICIENCY :: real where
  "FUEL_CELL_EFFICIENCY = 0.35"

definition METHANOL_ENERGY_DENSITY :: real where
  "METHANOL_ENERGY_DENSITY = 5.5 / 5"

definition BATTERY_EFFICIENCY :: real where
  "BATTERY_EFFICIENCY = 0.90"

section \<open>Appliances\<close>

text \<open>
  An appliance is a dictionary with the keys \<^verbatim>\<open>name\<close>, \<^verbatim>\<open>power\<close> and
  \<^verbatim>\<open>hours\<close>, as the dashboard builds it
  (\<^verbatim>\<open>{"name": app['name'], "power": app['power'], "hours": h}\<close>).
\<close>

record 'n appliance =
  name :: string
  power :: 'n
  hours :: 'n

section \<open>The calculator, on exact numbers\<close>

definition calculate_daily_energy_demand :: "real appliance list \<Rightarrow> py_error + py_float" where
  "calculate_daily_energy_demand appliances =
     Inr (Fin (py_sum (map (\<lambda>app. power app * hours app) appliances)))"

definition calculate_tank_autonomy :: "real \<Rightarrow> real \<Rightarrow> py_error + py_float" where
  "calculate_tank_autonomy liters_available daily_consumption_l =
     (if daily_consumption_l = 0 then Inr PosInf
      else and_then (py_div liters_available daily_consumption_l) (\<lambda>q. Inr (Fin q)))"

definition battery_discharge_time :: "real \<Rightarrow> py_error + py_float" where
  "battery_discharge_time energy_wh =
     (if energy_wh = 0 then Inr PosInf
      else and_then (py_div BATTERY_CAPACITY_WH energy_wh) (\<lambda>q. Inr (Fin (q * 24))))"

definition fuel_cell_efficiency :: "real \<Rightarrow> real \<Rightarrow> py_error + py_float" where
  "fuel_cell_efficiency useful_energy_kwh methanol_used_l =
     (if methanol_used_l = 0 then Inr (Fin 0)
      else let chemical_energy = methanol_used_l * METHANOL_ENERGY_DENSITY
           in and_then (py_div useful_energy_kwh chemical_energy) (\<lambda>q. Inr (Fin q)))"

text \<open>The first parameter, \<open>battery_energy_wh\<close>, is not read by the body.\<close>

definition global_system_efficiency :: "real \<Rightarrow> real \<Rightarrow> real \<Rightarrow> py_error + py_float" where
  "global_system_efficiency battery_energy_wh fuel_cell_energy_wh methanol_used_l =
     (if methanol_used_l = 0 then Inr (Fin 0)
      else and_then (py_div fuel_cell_energy_wh 1000)
             (\<lambda>q. let net_energy_kwh = q * BATTERY_EFFICIENCY;
                      chemical_energy_kwh = methanol_used_l * METHANOL_ENERGY_DENSITY
                  in and_then (py_div net_energy_kwh chemical_energy_kwh)
                       (\<lambda>r. Inr (Fin r))))"

definition system_efficiency :: "real \<Rightarrow> real \<Rightarrow> py_error + py_float" where
  "system_efficiency energy_delivered_kwh methanol_liters =
     (if methanol_liters = 0 then Inr (Fin 0)
      else let chemical_energy_kwh = methanol_liters * METHANOL_ENERGY_DENSITY
           in and_then (py_div energy_delivered_kwh chemical_energy_kwh) (\<lambda>q. Inr (Fin q)))"

section \<open>Machine numbers\<close>

text \<open>
  A Python \<^verbatim>\<open>float\<close> is a binary64 number, an infinity or NaN; a finite one is kept
  as the real number it denotes. The two zeros of binary64 are one value here: they compare
  equal, and no operation of the module tells them apart, since a division by either
  raises. A Python \<^verbatim>\<open>int\<close> has no bound.
\<close>

datatype py_num = PyInt int | PyFloat py_float

subsection \<open>Rounding to binary64\<close>

text \<open>
  The binade of a magnitude \<open>a\<close> is the largest exponent \<open>e\<close> between -1021 and 1024
  with \<open>2 powi e \<le> a\<close>, and -1022 below that (the subnormal range). The search runs down
  from the top exponent.
\<close>

fun binade_from :: "nat \<Rightarrow> real \<Rightarrow> int" where
  "binade_from 0 a = - 1022"
| "binade_from (Suc n) a =
     (if 2 powi (int (Suc n) - 1022) \<le> a then int (Suc n) - 1022 else binade_from n a)"

definition binade :: "real \<Rightarrow> int" where
  "binade x = binade_from 2046 \<bar>x\<bar>"

text \<open>The spacing of the binary64 numbers around \<open>x\<close>: 53 significant bits.\<close>

definition quantum :: "real \<Rightarrow> real" where
  "quantum x = 2 powi (binade x - 52)"

text \<open>
  Round to nearest, ties to even: the nearest multiple of the quantum, and an infinity
  when that multiple reaches \<open>2 ^ 1024\<close>.
\<close>

definition rnd :: "real \<Rightarrow> py_float" where
  "rnd x =
     (let q = quantum x;
          r = of_int (round_half_even (x / q)) * q
      in if 2 ^ 1024 \<le> \<bar>r\<bar> then (if 0 < x then PosInf else NegInf) else Fin r)"

text \<open>The number of quanta in the rounded magnitude.\<close>

definition steps :: "real \<Rightarrow> int" where
  "steps x = round_half_even (\<bar>x\<bar> / quantum x)"

text \<open>A decimal literal such as \<^verbatim>\<open>12.8\<close> denotes the float nearest to it.\<close>

definition float_literal :: "real \<Rightarrow> py_float" where
  "float_literal x = rnd x"

subsection \<open>Float arithmetic\<close>

fun float_sign :: "py_float \<Rightarrow> real" where
  "float_sign (Fin x) = sgn x"
| "float_sign PosInf = 1"
| "float_sign NegInf = - 1"
| "float_sign NaN = 0"

definition float_inf :: "real \<Rightarrow> py_float" where
  "float_inf s = (if 0 < s then PosInf else NegInf)"

text \<open>A product with an infinity is an infinity, and NaN when the other factor is zero.\<close>

fun float_mul :: "py_float \<Rightarrow> py_float \<Rightarrow> py_float" where
  "float_mul (Fin x) (Fin y) = rnd (x * y)"
| "float_mul a b =
     (if a = NaN \<or> b = NaN \<or> float_sign a * float_sign b = 0 then NaN
      else float_inf (float_sign a * float_sign b))"

text \<open>
  The quotient by a divisor that is not zero (the caller has raised on a zero divisor):
  a finite number by an infinity is zero, an infinity by an infinity is NaN.
\<close>

fun float_div :: "py_float \<Rightarrow> py_float \<Rightarrow> py_float" where
  "float_div (Fin x) (Fin y) = rnd (x / y)"
| "float_div a (Fin y) = (if a = NaN then NaN else float_inf (float_sign a * sgn y))"
| "float_div (Fin x) b = (if b = NaN then NaN else Fin 0)"
| "float_div a b = NaN"


subsection \<open>The operators of Python\<close>

text \<open>
  An \<^verbatim>\<open>int\<close> that meets a \<^verbatim>\<open>float\<close> is converted first, and the conversion raises
  \<^verbatim>\<open>OverflowError\<close> when the nearest float would be infinite.
\<close>

definition to_float :: "py_num \<Rightarrow> py_error + py_float" where
  "to_float a =
     (case a of
        PyFloat f \<Rightarrow> Inr f
      | PyInt i \<Rightarrow> (case rnd (of_int i) of Fin r \<Rightarrow> Inr (Fin r) | _ \<Rightarrow> Inl OverflowError))"

text \<open>
  \<^verbatim>\<open>a / b\<close>. Two ints give the float nearest to the exact quotient, or
  \<^verbatim>\<open>OverflowError\<close>; otherwise both operands are converted, the left one first, and the
  zero divisor is tested after the conversions.
\<close>

definition py_truediv :: "py_num \<Rightarrow> py_num \<Rightarrow> py_error + py_num" where
  "py_truediv a b =
     (case (a, b) of
        (PyInt i, PyInt j) \<Rightarrow>
          if j = 0 then Inl ZeroDivisionError
          else (case rnd (of_int i / of_int j) of
                  Fin r \<Rightarrow> Inr (PyFloat (Fin r))
                | _ \<Rightarrow> Inl OverflowError)
      | _ \<Rightarrow>
          and_then (to_float a) (\<lambda>x. and_then (to_float b) (\<lambda>y.
            if y = Fin 0 then Inl ZeroDivisionError else Inr (PyFloat (float_div x y)))))"

text \<open>\<^verbatim>\<open>a * b\<close> and \<^verbatim>\<open>a + b\<close>: exact on two ints, float arithmetic otherwise.\<close>

definition py_mul :: "py_num \<Rightarrow> py_num \<Rightarrow> py_error + py_num" where
  "py_mul a b =
     (case (a, b) of
        (PyInt i, PyInt j) \<Rightarrow> Inr (PyInt (i * j))
      | _ \<Rightarrow>
          and_then (to_float a) (\<lambda>x. and_then (to_float b) (\<lambda>y.
            Inr (PyFloat (float_mul x y)))))"



fun py_le_int :: "py_num \<Rightarrow> int \<Rightarrow> bool" where
  "py_le_int (PyInt i) k = (i \<le> k)"
| "py_le_int (PyFloat (Fin x)) k = (x \<le> of_int k)"
| "py_le_int (PyFloat NegInf) k = True"
| "py_le_int (PyFloat f) k = False"

text \<open>
  \<^verbatim>\<open>round(x, ndigits)\<close> with \<open>ndigits \<ge> 0\<close>. An int is returned as it is, and so are
  the infinities and NaN. A finite float is rounded, in its exact value, to the nearest
  decimal with \<open>ndigits\<close> places, ties to even, and the result is the float nearest to
  that decimal.
\<close>

fun py_round :: "py_num \<Rightarrow> nat \<Rightarrow> py_error + py_num" where
  "py_round (PyInt i) ndigits = Inr (PyInt i)"
| "py_round (PyFloat (Fin x)) ndigits =
     (case rnd (of_int (round_half_even (x * 10 ^ ndigits)) / 10 ^ ndigits) of
        Fin r \<Rightarrow> Inr (PyFloat (Fin r))
      | _ \<Rightarrow> Inl OverflowError)"
| "py_round (PyFloat f) ndigits = Inr (PyFloat f)"



subsection \<open>The constants as Python values\<close>

text \<open>
  The two computed constants are written with the float operation their expression
  performs: \<^verbatim>\<open>105 * 12.8\<close> converts the int exactly, \<^verbatim>\<open>5.5 / 5\<close> likewise.
\<close>

definition METHANOL_CONSUMPTION_PER_KWH_num :: py_num where
  "METHANOL_CONSUMPTION_PER_KWH_num = PyFloat (float_literal 0.9)"

definition BATTERY_CAPACITY_AH_num :: py_num where
  "BATTERY_CAPACITY_AH_num = PyInt 105"

definition BATTERY_VOLTAGE_num :: py_num where
  "BATTERY_VOLTAGE_num = PyFloat (float_literal 12.8)"





section \<open>The calculator, on machine numbers\<close>


definition calculate_methanol_consumption_num :: "py_num \<Rightarrow> py_error + py_num" where
  "calculate_methanol_consumption_num energy_wh =
     and_then (py_truediv energy_wh (PyInt 1000))
       (\<lambda>q. py_mul q METHANOL_CONSUMPTION_PER_KWH_num)"




definition peak_load_coverage_num :: "py_num \<Rightarrow> py_error + py_num" where
  "peak_load_coverage_num peak_power_w =
     and_then (py_truediv peak_power_w BATTERY_VOLTAGE_num)
       (\<lambda>peak_current.
          if py_le_int peak_current 200 then Inr (PyFloat (Fin 100))
          else and_then (py_mul (PyInt 200) BATTERY_VOLTAGE_num)
                 (\<lambda>limit_w. and_then (py_truediv limit_w peak_power_w)
                    (\<lambda>share. and_then (py_mul share (PyInt 100))
                       (\<lambda>percent. py_round percent 1))))"





section \<open>Arguments and results\<close>

text \<open>A float the interpreter can hold: a binary64 number, an infinity or NaN.\<close>

fun is_binary64 :: "py_float \<Rightarrow> bool" where
  "is_binary64 (Fin r) = (rnd r = Fin r)"
| "is_binary64 f = True"

text \<open>An int that converts to a float.\<close>

definition fits_float :: "int \<Rightarrow> bool" where
  "fits_float i = (case rnd (of_int i) of Fin r \<Rightarrow> True | _ \<Rightarrow> False)"

text \<open>A numeric argument: a float, or an int that converts to one.\<close>

fun is_number :: "py_num \<Rightarrow> bool" where
  "is_number (PyInt i) = fits_float i"
| "is_number (PyFloat f) = is_binary64 f"





text \<open>A call returns: it ends with a value, not with an exception.\<close>

fun returns :: "py_error + py_num \<Rightarrow> bool" where
  "returns (Inl e) = False"
| "returns (Inr v) = True"




section \<open>Auxiliary facts\<close>

lemma and_then_Inr [simp]: "and_then (Inr v) f = f v"
  by (simp add: and_then_def)

lemma and_then_Inl [simp]: "and_then (Inl e) f = Inl e"
  by (simp add: and_then_def)

lemma py_div_nonzero: "b \<noteq> 0 \<Longrightarrow> py_div a b = Inr (a / b)"
  by (simp add: py_div_def)

lemma py_div_zero: "py_div a 0 = Inl ZeroDivisionError"
  by (simp add: py_div_def)

lemma foldl_add_shift: "foldl (+) (acc :: real) xs = acc + foldl (+) 0 xs"
proof (induction xs arbitrary: acc)
  case Nil
  show ?case by simp
next
  case (Cons x xs)
  have "foldl (+) acc (x # xs) = foldl (+) (acc + x) xs" by simp
  also have "\<dots> = (acc + x) + foldl (+) 0 xs" by (rule Cons.IH)
  also have "\<dots> = acc + (x + foldl (+) 0 xs)" by simp
  also have "x + foldl (+) 0 xs = foldl (+) x xs" by (rule Cons.IH [symmetric])
  finally show ?case by simp
qed

lemma py_sum_Nil: "py_sum [] = 0"
  by (simp add: py_sum_def)

lemma py_sum_Cons: "py_sum (x # xs) = x + py_sum xs"
  unfolding py_sum_def using foldl_add_shift [of x xs] by simp

lemma py_sum_sum_list: "py_sum xs = sum_list xs"
  by (induction xs) (simp_all add: py_sum_Nil py_sum_Cons)

lemma const_simps:
  "METHANOL_ENERGY_DENSITY = 11 / 10" "BATTERY_VOLTAGE = 64 / 5" "BATTERY_CAPACITY_WH = 1344"
  "BATTERY_EFFICIENCY = 9 / 10" "METHANOL_CONSUMPTION_PER_KWH = 9 / 10"
  "FUEL_CELL_OUTPUT_W = 125"
  by (simp_all add: METHANOL_ENERGY_DENSITY_def BATTERY_VOLTAGE_def BATTERY_CAPACITY_WH_def
      BATTERY_CAPACITY_AH_def BATTERY_EFFICIENCY_def METHANOL_CONSUMPTION_PER_KWH_def
      FUEL_CELL_OUTPUT_W_def)

section \<open>Daily energy demand\<close>

text \<open>
  Claim C4. For every appliance list, \<open>calculate_daily_energy_demand\<close> returns the sum,
  over the positions of the list, of power times hours; for the empty list it returns 0;
  and for the list of an appliance of 100 W used 2 hours and one of 50 W used 4 hours
  it returns 400.
\<close>

theorem calculate_daily_energy_demand_sum:
  "(\<forall>appliances. calculate_daily_energy_demand appliances =
       Inr (Fin (\<Sum>i < length appliances. power (appliances ! i) * hours (appliances ! i))))
   \<and> calculate_daily_energy_demand [] = Inr (Fin 0)
   \<and> (\<forall>n1 n2. calculate_daily_energy_demand
         [\<lparr>name = n1, power = 100, hours = 2\<rparr>, \<lparr>name = n2, power = 50, hours = 4\<rparr>]
       = Inr (Fin 400))"
proof (intro conjI allI)
  fix appliances :: "real appliance list"
  have "py_sum (map (\<lambda>app. power app * hours app) appliances)
        = sum_list (map (\<lambda>app. power app * hours app) appliances)"
    by (rule py_sum_sum_list)
  also have "\<dots> = (\<Sum>i < length appliances. power (appliances ! i) * hours (appliances ! i))"
    by (simp add: sum_list_sum_nth atLeast0LessThan)
  finally show "calculate_daily_energy_demand appliances =
       Inr (Fin (\<Sum>i < length appliances. power (appliances ! i) * hours (appliances ! i)))"
    by (simp add: calculate_daily_energy_demand_def)
next
  show "calculate_daily_energy_demand [] = Inr (Fin 0)"
    by (simp add: calculate_daily_energy_demand_def py_sum_Nil)
next
  fix n1 n2 :: string
  show "calculate_daily_energy_demand
         [\<lparr>name = n1, power = 100, hours = 2\<rparr>, \<lparr>name = n2, power = 50, hours = 4\<rparr>]
       = Inr (Fin 400)"
    by (simp add: calculate_daily_energy_demand_def py_sum_def)
qed

section \<open>Tank autonomy\<close>

text \<open>
  Claim C2. For all \<open>liters_available\<close> and \<open>daily_consumption_l\<close>,
  \<open>calculate_tank_autonomy\<close> returns positive infinity when the daily consumption is 0
  and the quotient \<open>liters_available / daily_consumption_l\<close> otherwise; in particular
  \<open>calculate_tank_autonomy 10 0\<close> is positive infinity and \<open>calculate_tank_autonomy 10 2\<close>
  is 5.
\<close>

theorem calculate_tank_autonomy_cases:
  "(\<forall>liters_available daily_consumption_l.
      calculate_tank_autonomy liters_available daily_consumption_l =
        (if daily_consumption_l = 0 then Inr PosInf
         else Inr (Fin (liters_available / daily_consumption_l))))
   \<and> calculate_tank_autonomy 10 0 = Inr PosInf
   \<and> calculate_tank_autonomy 10 2 = Inr (Fin 5)"
  by (simp add: calculate_tank_autonomy_def py_div_def)

section \<open>Battery discharge time\<close>

text \<open>
  Claim C5. For all \<open>energy_wh\<close>, \<open>battery_discharge_time\<close> returns positive infinity
  when \<open>energy_wh\<close> is 0 and \<open>BATTERY_CAPACITY_WH / energy_wh * 24\<close> otherwise; in
  particular \<open>battery_discharge_time BATTERY_CAPACITY_WH\<close> is 24.
\<close>

theorem battery_discharge_time_cases:
  "(\<forall>energy_wh. battery_discharge_time energy_wh =
      (if energy_wh = 0 then Inr PosInf
       else Inr (Fin (BATTERY_CAPACITY_WH / energy_wh * 24))))
   \<and> battery_discharge_time BATTERY_CAPACITY_WH = Inr (Fin 24)"
  by (simp add: battery_discharge_time_def py_div_def const_simps)

section \<open>Global system efficiency\<close>

text \<open>
  Claim C3. For all arguments, \<open>global_system_efficiency\<close> returns exactly 0, neither
  infinity nor an exception, when \<open>methanol_used_l\<close> is 0, and otherwise
  \<open>((fuel_cell_energy_wh / 1000) * BATTERY_EFFICIENCY) /
  (methanol_used_l * METHANOL_ENERGY_DENSITY)\<close>.
\<close>

theorem global_system_efficiency_cases:
  "global_system_efficiency battery_energy_wh fuel_cell_energy_wh methanol_used_l =
     (if methanol_used_l = 0 then Inr (Fin 0)
      else Inr (Fin (((fuel_cell_energy_wh / 1000) * BATTERY_EFFICIENCY)
                      / (methanol_used_l * METHANOL_ENERGY_DENSITY))))"
proof (cases "methanol_used_l = 0")
  case True
  then show ?thesis by (simp add: global_system_efficiency_def)
next
  case False
  have "METHANOL_ENERGY_DENSITY \<noteq> 0" by (simp add: const_simps)
  with False have "methanol_used_l * METHANOL_ENERGY_DENSITY \<noteq> 0" by simp
  with False show ?thesis
    by (simp add: global_system_efficiency_def py_div_def Let_def)
qed

text \<open>
  Claim C9. The result of \<open>global_system_efficiency\<close> does not depend on its first
  argument: two calls that differ only in \<open>battery_energy_wh\<close> return the same.
\<close>

theorem global_system_efficiency_ignores_battery_energy:
  "global_system_efficiency battery_energy_wh fuel_cell_energy_wh methanol_used_l =
   global_system_efficiency battery_energy_wh' fuel_cell_energy_wh methanol_used_l"
  by (simp add: global_system_efficiency_def)

section \<open>The two chemical-energy ratios\<close>

text \<open>
  Claim C10. \<open>fuel_cell_efficiency\<close> and \<open>system_efficiency\<close> are extensionally equal:
  on the same energy and methanol arguments they return the same, and with no methanol
  both return 0.
\<close>

theorem fuel_cell_efficiency_eq_system_efficiency:
  "(\<forall>energy_kwh liters.
      fuel_cell_efficiency energy_kwh liters = system_efficiency energy_kwh liters)
   \<and> (\<forall>energy_kwh. fuel_cell_efficiency energy_kwh 0 = Inr (Fin 0)
        \<and> system_efficiency energy_kwh 0 = Inr (Fin 0))"
  by (simp add: fuel_cell_efficiency_def system_efficiency_def)

section \<open>Binades\<close>

lemma binade_from_range: "- 1022 \<le> binade_from n a \<and> binade_from n a \<le> int n - 1022"
  by (induction n) auto

lemma binade_from_lower: "- 1022 < binade_from n a \<Longrightarrow> 2 powi (binade_from n a) \<le> a"
  by (induction n) (auto split: if_splits)

lemma binade_from_upper:
  "binade_from n a < int n - 1022 \<Longrightarrow> a < 2 powi (binade_from n a + 1)"
proof (induction n)
  case 0
  then show ?case by simp
next
  case (Suc n)
  show ?case
  proof (cases "2 powi (int (Suc n) - 1022) \<le> a")
    case True
    with Suc.prems show ?thesis by simp
  next
    case False
    then have eq: "binade_from (Suc n) a = binade_from n a" by simp
    show ?thesis
    proof (cases "binade_from n a < int n - 1022")
      case True
      with Suc.IH eq show ?thesis by simp
    next
      case False
      with binade_from_range [of n a] have "binade_from n a = int n - 1022" by simp
      then have e: "binade_from (Suc n) a + 1 = int (Suc n) - 1022" using eq by simp
      from \<open>\<not> 2 powi (int (Suc n) - 1022) \<le> a\<close>
      have "a < 2 powi (int (Suc n) - 1022)" by (simp only: not_le)
      then show ?thesis by (simp only: e)
    qed
  qed
qed

lemma two_powi_mono: "i \<le> j \<Longrightarrow> (2::real) powi i \<le> 2 powi j"
  by (rule power_int_increasing) simp_all

lemma two_powi_pos: "0 < (2::real) powi i"
  by (rule zero_less_power_int) simp

lemma binade_range: "- 1022 \<le> binade x" "binade x \<le> 1024"
  using binade_from_range [of 2046 "\<bar>x\<bar>"] by (simp_all add: binade_def)

lemma binade_lower: "- 1022 < binade x \<Longrightarrow> 2 powi (binade x) \<le> \<bar>x\<bar>"
  unfolding binade_def by (rule binade_from_lower)

lemma binade_upper: "binade x < 1024 \<Longrightarrow> \<bar>x\<bar> < 2 powi (binade x + 1)"
  unfolding binade_def using binade_from_upper [of 2046 "\<bar>x\<bar>"] by simp

lemma binade_eqI:
  assumes "2 powi k \<le> \<bar>x\<bar>" "\<bar>x\<bar> < 2 powi (k + 1)" "- 1022 \<le> k" "k < 1024"
  shows "binade x = k"
proof (rule ccontr)
  assume ne: "binade x \<noteq> k"
  show False
  proof (cases "binade x < k")
    case True
    then have "binade x < 1024" using assms by simp
    then have "\<bar>x\<bar> < 2 powi (binade x + 1)" by (rule binade_upper)
    also have "\<dots> \<le> 2 powi k" using True by (intro two_powi_mono) simp
    finally show False using assms by simp
  next
    case False
    with ne have gt: "k < binade x" by simp
    then have "- 1022 < binade x" using assms by simp
    then have "2 powi (binade x) \<le> \<bar>x\<bar>" by (rule binade_lower)
    moreover have "2 powi (k + 1) \<le> (2::real) powi (binade x)"
      using gt by (intro two_powi_mono) simp
    ultimately show False using assms by simp
  qed
qed

lemma binade_small: "\<bar>x\<bar> < 2 powi (- 1021) \<Longrightarrow> binade x = - 1022"
proof (rule ccontr)
  assume a: "\<bar>x\<bar> < 2 powi (- 1021)" and ne: "binade x \<noteq> - 1022"
  with binade_range(1) [of x] have gt: "- 1022 < binade x" by simp
  then have "2 powi (binade x) \<le> \<bar>x\<bar>" by (rule binade_lower)
  moreover have "2 powi (- 1021) \<le> (2::real) powi (binade x)"
    using gt by (intro two_powi_mono) simp
  ultimately show False using a by simp
qed

section \<open>Rounding to the nearest integer\<close>

lemma rhe_floor: "\<lfloor>y\<rfloor> \<le> round_half_even y \<and> round_half_even y \<le> \<lfloor>y\<rfloor> + 1"
  by (simp add: round_half_even_def Let_def)

lemma rhe_of_int: "round_half_even (of_int n) = n"
  by (simp add: round_half_even_def Let_def)

lemma rhe_ge: "of_int N \<le> y \<Longrightarrow> N \<le> round_half_even y"
proof -
  assume "of_int N \<le> y"
  then have "N \<le> \<lfloor>y\<rfloor>" by (simp add: le_floor_iff)
  with rhe_floor [of y] show ?thesis by linarith
qed

lemma rhe_le: "y \<le> of_int N \<Longrightarrow> round_half_even y \<le> N"
proof (cases "y = of_int N")
  case True
  then show ?thesis by (simp add: rhe_of_int)
next
  case False
  assume "y \<le> of_int N"
  with False have "y < of_int N" by simp
  then have "\<lfloor>y\<rfloor> < N" by (simp add: floor_less_iff)
  with rhe_floor [of y] show ?thesis by linarith
qed

lemma rhe_near: "\<bar>of_int (round_half_even y) - y\<bar> \<le> 1 / 2"
proof -
  have "of_int \<lfloor>y\<rfloor> \<le> y" "y < of_int \<lfloor>y\<rfloor> + 1" by linarith+
  then show ?thesis
    by (auto simp add: round_half_even_def Let_def)
qed

lemma rhe_unique:
  assumes "\<bar>y - of_int n\<bar> < 1 / 2 \<or> (\<bar>y - of_int n\<bar> = 1 / 2 \<and> even n)"
  shows "round_half_even y = n"
proof -
  have fl: "of_int \<lfloor>y\<rfloor> \<le> y" "y < of_int \<lfloor>y\<rfloor> + 1" by linarith+
  from assms show ?thesis
  proof
    assume a: "\<bar>y - of_int n\<bar> < 1 / 2"
    have "\<bar>of_int (round_half_even y) - y\<bar> \<le> 1 / 2" by (rule rhe_near)
    with a have "\<bar>(of_int (round_half_even y) :: real) - of_int n\<bar> < 1" by linarith
    then have "\<bar>round_half_even y - n\<bar> < 1"
      by (metis of_int_diff of_int_abs of_int_less_1_iff)
    then show ?thesis by simp
  next
    assume a: "\<bar>y - of_int n\<bar> = 1 / 2 \<and> even n"
    then consider "y = of_int n + 1 / 2" | "y = of_int n - 1 / 2" by linarith
    then show ?thesis
    proof cases
      case 1
      then have "\<lfloor>y\<rfloor> = n" by (simp add: floor_eq_iff)
      with 1 a show ?thesis by (simp add: round_half_even_def Let_def)
    next
      case 2
      then have "\<lfloor>y\<rfloor> = n - 1" by (simp add: floor_eq_iff)
      with 2 a show ?thesis by (simp add: round_half_even_def Let_def)
    qed
  qed
qed

lemma rhe_minus: "round_half_even (- y) = - round_half_even y"
proof (rule rhe_unique)
  let ?n = "round_half_even y"
  have near: "\<bar>of_int ?n - y\<bar> \<le> 1 / 2" by (rule rhe_near)
  show "\<bar>- y - of_int (- ?n)\<bar> < 1 / 2 \<or> (\<bar>- y - of_int (- ?n)\<bar> = 1 / 2 \<and> even (- ?n))"
  proof (cases "\<bar>of_int ?n - y\<bar> < 1 / 2")
    case True
    then show ?thesis by simp
  next
    case False
    with near have eq: "\<bar>of_int ?n - y\<bar> = 1 / 2" by simp
    have fl: "of_int \<lfloor>y\<rfloor> \<le> y" "y < of_int \<lfloor>y\<rfloor> + 1" by linarith+
    have "even ?n"
      using eq fl by (auto simp add: round_half_even_def Let_def split: if_splits)
    with eq show ?thesis by simp
  qed
qed

lemma rhe_abs: "\<bar>round_half_even y\<bar> = round_half_even \<bar>y\<bar>"
proof (cases "0 \<le> y")
  case True
  then have "0 \<le> round_half_even y" using rhe_ge [of 0 y] by simp
  with True show ?thesis by simp
next
  case False
  then have "round_half_even y \<le> 0" using rhe_le [of y 0] by simp
  with False show ?thesis by (simp add: rhe_minus)
qed

lemma rhe_half_up:
  assumes "even N" "of_int N - 1 / 2 \<le> y"
  shows "N \<le> round_half_even y"
proof (cases "y = of_int N - 1 / 2")
  case True
  then have "\<bar>y - of_int N\<bar> = 1 / 2" by simp
  with assms have "round_half_even y = N" by (intro rhe_unique) simp
  then show ?thesis by simp
next
  case False
  with assms have "of_int N - 1 / 2 < y" by simp
  moreover have "\<bar>of_int (round_half_even y) - y\<bar> \<le> 1 / 2" by (rule rhe_near)
  ultimately have "(of_int N :: real) - 1 < of_int (round_half_even y)" by linarith
  then have "N - 1 < round_half_even y"
    by (metis of_int_1 of_int_diff of_int_less_iff)
  then show ?thesis by simp
qed

lemma rhe_below_half:
  assumes "y < of_int N - 1 / 2"
  shows "round_half_even y \<le> N - 1"
proof -
  have "\<bar>of_int (round_half_even y) - y\<bar> \<le> 1 / 2" by (rule rhe_near)
  with assms have "(of_int (round_half_even y) :: real) < of_int N" by linarith
  then have "round_half_even y < N" by (simp only: of_int_less_iff)
  then show ?thesis by simp
qed

section \<open>The quantum and the number of steps\<close>

lemma quantum_pos: "0 < quantum x"
  by (simp add: quantum_def two_powi_pos)

lemma rnd_quantum:
  "rnd x = (if 2 ^ 1024 \<le> \<bar>of_int (round_half_even (x / quantum x)) * quantum x\<bar>
            then (if 0 < x then PosInf else NegInf)
            else Fin (of_int (round_half_even (x / quantum x)) * quantum x))"
  by (simp add: rnd_def quantum_def Let_def)

lemma abs_rounded:
  "\<bar>of_int (round_half_even (x / quantum x)) * quantum x\<bar>
   = of_int (round_half_even (\<bar>x\<bar> / quantum x)) * quantum x"
proof -
  have "\<bar>of_int (round_half_even (x / quantum x)) * quantum x\<bar>
      = of_int \<bar>round_half_even (x / quantum x)\<bar> * quantum x"
    using quantum_pos [of x] by (simp add: abs_mult)
  also have "\<bar>round_half_even (x / quantum x)\<bar> = round_half_even \<bar>x / quantum x\<bar>"
    by (rule rhe_abs)
  also have "\<bar>x / quantum x\<bar> = \<bar>x\<bar> / quantum x"
    using quantum_pos [of x] by simp
  finally show ?thesis .
qed

lemma powi_split53: "(2::real) powi (b + 1) = 2 ^ 53 * 2 powi (b - 52)"
proof -
  have "b + 1 = 53 + (b - 52)" by simp
  then have "(2::real) powi (b + 1) = 2 powi (53 + (b - 52))" by (rule arg_cong)
  also have "\<dots> = 2 powi 53 * 2 powi (b - 52)" by (rule power_int_add) simp
  finally show ?thesis by simp
qed

lemma powi_split52: "(2::real) powi b = 2 ^ 52 * 2 powi (b - 52)"
proof -
  have "b = 52 + (b - 52)" by simp
  then have "(2::real) powi b = 2 powi (52 + (b - 52))" by (rule arg_cong)
  also have "\<dots> = 2 powi 52 * 2 powi (b - 52)" by (rule power_int_add) simp
  finally show ?thesis by simp
qed




lemma rnd_steps:
  "rnd x = (if 2 ^ 1024 \<le> of_int (steps x) * quantum x
            then (if 0 < x then PosInf else NegInf)
            else Fin (of_int (round_half_even (x / quantum x)) * quantum x))"
  by (simp add: rnd_quantum abs_rounded steps_def)

lemma steps_le_53:
  assumes "binade x < 1024"
  shows "steps x \<le> 2 ^ 53"
proof -
  have "\<bar>x\<bar> < 2 powi (binade x + 1)" using assms by (rule binade_upper)
  then have "\<bar>x\<bar> < 2 ^ 53 * quantum x" by (simp add: powi_split53 quantum_def)
  then have "\<bar>x\<bar> / quantum x < 2 ^ 53"
    using quantum_pos [of x] by (simp add: pos_divide_less_eq)
  then have "\<bar>x\<bar> / quantum x \<le> of_int (2 ^ 53)" by simp
  then show ?thesis unfolding steps_def by (rule rhe_le)
qed

lemma steps_ge_52:
  assumes "- 1022 < binade x"
  shows "2 ^ 52 \<le> steps x"
proof -
  have "2 powi (binade x) \<le> \<bar>x\<bar>" using assms by (rule binade_lower)
  then have "2 ^ 52 * quantum x \<le> \<bar>x\<bar>" using powi_split52 [of "binade x"] by (simp add: quantum_def)
  then have "2 ^ 52 \<le> \<bar>x\<bar> / quantum x"
    using quantum_pos [of x] by (simp add: pos_le_divide_eq)
  then have "of_int (2 ^ 52) \<le> \<bar>x\<bar> / quantum x" by simp
  then show ?thesis unfolding steps_def by (rule rhe_ge)
qed

lemma quantum_1024: "binade x = 1024 \<Longrightarrow> quantum x = 2 ^ 972"
  by (simp add: quantum_def)

lemma quantum_1023: "binade x = 1023 \<Longrightarrow> quantum x = 2 ^ 971"
  by (simp add: quantum_def)

lemma overflow_1024:
  assumes "binade x = 1024"
  shows "2 ^ 1024 \<le> of_int (steps x) * quantum x"
proof -
  have "2 ^ 52 \<le> steps x" using assms by (intro steps_ge_52) simp
  then have "(2::real) ^ 52 \<le> of_int (steps x)"
    by (metis of_int_le_iff of_int_numeral of_int_power)
  then have "(2::real) ^ 52 * 2 ^ 972 \<le> of_int (steps x) * 2 ^ 972"
    by (intro mult_right_mono) simp_all
  moreover have "(2::real) ^ 52 * 2 ^ 972 = 2 ^ 1024"
    by (simp only: power_add [symmetric]) simp
  ultimately show ?thesis using assms by (simp only: quantum_1024)
qed

lemma below_1023:
  assumes "binade x < 1023"
  shows "of_int (steps x) * quantum x \<le> 2 ^ 1023"
proof -
  have "steps x \<le> 2 ^ 53" using assms by (intro steps_le_53) simp
  then have "(of_int (steps x) :: real) \<le> 2 ^ 53"
    by (metis of_int_le_iff of_int_numeral of_int_power)
  then have "of_int (steps x) * quantum x \<le> 2 ^ 53 * quantum x"
    using quantum_pos [of x] by (intro mult_right_mono) simp_all
  also have "\<dots> = 2 powi (binade x + 1)" by (simp add: powi_split53 quantum_def)
  also have "\<dots> \<le> 2 powi 1023" using assms by (intro two_powi_mono) simp
  finally show ?thesis by simp
qed

section \<open>Rounding to binary64: sign, zero and range\<close>

lemma rnd_not_NaN: "rnd x \<noteq> NaN"
  by (simp add: rnd_steps)

lemma steps_zero: "steps 0 = 0"
  by (simp add: steps_def rhe_of_int [of 0, simplified])

lemma rnd_zero: "rnd 0 = Fin 0"
  by (simp add: rnd_steps steps_zero rhe_of_int [of 0, simplified])

lemma rnd_Fin_abs:
  assumes "rnd x = Fin r"
  shows "\<bar>r\<bar> = of_int (steps x) * quantum x" "of_int (steps x) * quantum x < 2 ^ 1024"
proof -
  from assms have lt: "\<not> 2 ^ 1024 \<le> of_int (steps x) * quantum x"
    and r: "r = of_int (round_half_even (x / quantum x)) * quantum x"
    by (auto simp add: rnd_steps split: if_splits)
  from lt show "of_int (steps x) * quantum x < 2 ^ 1024" by simp
  from r show "\<bar>r\<bar> = of_int (steps x) * quantum x"
    by (simp only: abs_rounded steps_def)
qed


lemma rnd_nonpos:
  assumes "x \<le> 0"
  shows "rnd x = NegInf \<or> (\<exists>r. rnd x = Fin r \<and> r \<le> 0)"
proof (cases "2 ^ 1024 \<le> of_int (steps x) * quantum x")
  case True
  with assms show ?thesis by (simp add: rnd_steps)
next
  case False
  have "round_half_even (x / quantum x) \<le> 0"
    using assms quantum_pos [of x] by (intro rhe_le) (simp add: divide_nonpos_pos)
  then have "of_int (round_half_even (x / quantum x)) * quantum x \<le> 0"
    using quantum_pos [of x] by (simp add: mult_le_0_iff)
  with False show ?thesis by (simp add: rnd_steps)
qed



lemma rnd_Fin_bound:
  assumes "rnd x = Fin r"
  shows "\<bar>r\<bar> \<le> 2 ^ 1024 - 2 ^ 971"
proof -
  note fin = rnd_Fin_abs [OF assms]
  consider "binade x = 1024" | "binade x = 1023" | "binade x < 1023"
    using binade_range(2) [of x] by linarith
  then show ?thesis
  proof cases
    case 1
    then have "2 ^ 1024 \<le> of_int (steps x) * quantum x" by (rule overflow_1024)
    with fin(2) show ?thesis by simp
  next
    case 2
    then have q: "quantum x = 2 ^ 971" by (rule quantum_1023)
    have "(of_int (steps x) :: real) * 2 ^ 971 < 2 ^ 53 * 2 ^ 971"
      using fin(2) q by (simp only: power_add [symmetric]) simp
    then have "(of_int (steps x) :: real) < 2 ^ 53" by simp
    then have "(of_int (steps x) :: real) < of_int (2 ^ 53)" by simp
    then have "steps x < 2 ^ 53" by (simp only: of_int_less_iff)
    then have "steps x \<le> 2 ^ 53 - 1" by simp
    then have "(of_int (steps x) :: real) \<le> of_int (2 ^ 53 - 1)" by (simp only: of_int_le_iff)
    then have "(of_int (steps x) :: real) \<le> 2 ^ 53 - 1" by simp
    then have "(of_int (steps x) :: real) * 2 ^ 971 \<le> (2 ^ 53 - 1) * 2 ^ 971"
      by (intro mult_right_mono) simp_all
    also have "((2::real) ^ 53 - 1) * 2 ^ 971 = 2 ^ 1024 - 2 ^ 971"
      by (simp only: left_diff_distrib power_add [symmetric]) simp
    finally show ?thesis using fin(1) q by simp
  next
    case 3
    then have "of_int (steps x) * quantum x \<le> 2 ^ 1023" by (rule below_1023)
    moreover have "(2::real) ^ 1023 \<le> 2 ^ 1024 - 2 ^ 971" by simp
    ultimately show ?thesis using fin(1) by simp
  qed
qed

section \<open>Rounding to binary64: the overflow threshold\<close>

lemma rnd_finite:
  assumes "\<bar>x\<bar> < 2 ^ 1024 - 2 ^ 970"
  shows "\<exists>r. rnd x = Fin r"
proof -
  have "of_int (steps x) * quantum x < 2 ^ 1024"
  proof -
    consider "binade x = 1024" | "binade x = 1023" | "binade x < 1023"
      using binade_range(2) [of x] by linarith
    then show ?thesis
    proof cases
      case 1
      then have "2 powi (binade x) \<le> \<bar>x\<bar>" by (intro binade_lower) simp
      with 1 have "2 ^ 1024 \<le> \<bar>x\<bar>" by simp
      with assms show ?thesis by simp
    next
      case 2
      then have q: "quantum x = 2 ^ 971" by (rule quantum_1023)
      have "(2 ^ 1024 - 2 ^ 970) / (2::real) ^ 971 = 2 ^ 53 - 1 / 2"
        by (simp add: diff_divide_distrib)
      moreover have "\<bar>x\<bar> / 2 ^ 971 < (2 ^ 1024 - 2 ^ 970) / 2 ^ 971"
        using assms by (intro divide_strict_right_mono) simp_all
      ultimately have "\<bar>x\<bar> / quantum x < of_int (2 ^ 53) - 1 / 2" using q by simp
      then have "steps x \<le> 2 ^ 53 - 1" unfolding steps_def by (rule rhe_below_half)
      then have "(of_int (steps x) :: real) \<le> of_int (2 ^ 53 - 1)" by (simp only: of_int_le_iff)
      then have "(of_int (steps x) :: real) \<le> 2 ^ 53 - 1" by simp
      then have "(of_int (steps x) :: real) * 2 ^ 971 \<le> (2 ^ 53 - 1) * 2 ^ 971"
        by (intro mult_right_mono) simp_all
      also have "((2::real) ^ 53 - 1) * 2 ^ 971 < 2 ^ 1024" by simp
      finally show ?thesis using q by simp
    next
      case 3
      then have "of_int (steps x) * quantum x \<le> 2 ^ 1023" by (rule below_1023)
      also have "(2::real) ^ 1023 < 2 ^ 1024" by simp
      finally show ?thesis .
    qed
  qed
  then show ?thesis by (simp add: rnd_steps)
qed

lemma rnd_overflow:
  assumes "2 ^ 1024 - 2 ^ 970 \<le> \<bar>x\<bar>"
  shows "rnd x = (if 0 < x then PosInf else NegInf)"
proof -
  have "2 ^ 1024 \<le> of_int (steps x) * quantum x"
  proof (cases "binade x = 1024")
    case True
    then show ?thesis by (rule overflow_1024)
  next
    case False
    with binade_range(2) [of x] have lt: "binade x < 1024" by simp
    have b: "binade x = 1023"
    proof (rule ccontr)
      assume "binade x \<noteq> 1023"
      with lt have "binade x + 1 \<le> 1023" by simp
      then have "(2::real) powi (binade x + 1) \<le> 2 powi 1023" by (rule two_powi_mono)
      moreover have "\<bar>x\<bar> < 2 powi (binade x + 1)" using lt by (rule binade_upper)
      ultimately have "\<bar>x\<bar> < 2 ^ 1023" by simp
      moreover have "(2::real) ^ 1023 \<le> 2 ^ 1024 - 2 ^ 970" by simp
      ultimately show False using assms by simp
    qed
    then have q: "quantum x = 2 ^ 971" by (rule quantum_1023)
    have "(2 ^ 1024 - 2 ^ 970) / (2::real) ^ 971 = 2 ^ 53 - 1 / 2"
      by (simp add: diff_divide_distrib)
    moreover have "(2 ^ 1024 - 2 ^ 970) / 2 ^ 971 \<le> \<bar>x\<bar> / 2 ^ 971"
      using assms by (intro divide_right_mono) simp_all
    ultimately have "of_int (2 ^ 53) - 1 / 2 \<le> \<bar>x\<bar> / quantum x" using q by simp
    moreover have "even ((2::int) ^ 53)" by simp
    ultimately have "2 ^ 53 \<le> steps x" unfolding steps_def by (intro rhe_half_up)
    then have "(of_int (2 ^ 53) :: real) \<le> of_int (steps x)" by (simp only: of_int_le_iff)
    then have "(2::real) ^ 53 \<le> of_int (steps x)" by simp
    then have "(2::real) ^ 53 * 2 ^ 971 \<le> of_int (steps x) * 2 ^ 971"
      by (intro mult_right_mono) simp_all
    moreover have "(2::real) ^ 53 * 2 ^ 971 = 2 ^ 1024"
      by (simp only: power_add [symmetric]) simp
    ultimately show ?thesis using q by simp
  qed
  then show ?thesis by (simp add: rnd_steps)
qed

lemma rnd_finite_iff: "(\<exists>r. rnd x = Fin r) \<longleftrightarrow> \<bar>x\<bar> < 2 ^ 1024 - 2 ^ 970"
proof
  assume "\<exists>r. rnd x = Fin r"
  then show "\<bar>x\<bar> < 2 ^ 1024 - 2 ^ 970"
    using rnd_overflow [of x] by (cases "\<bar>x\<bar> < 2 ^ 1024 - 2 ^ 970") (auto split: if_splits)
next
  assume "\<bar>x\<bar> < 2 ^ 1024 - 2 ^ 970"
  then show "\<exists>r. rnd x = Fin r" by (rule rnd_finite)
qed

text \<open>Evaluation at a number whose binade is known.\<close>

lemma rnd_eval:
  assumes "2 powi k \<le> \<bar>x\<bar>" "\<bar>x\<bar> < 2 powi (k + 1)" "- 1022 \<le> k" "k < 1023"
  shows "rnd x = Fin (of_int (round_half_even (x / 2 powi (k - 52))) * 2 powi (k - 52))"
proof -
  have b: "binade x = k" using assms by (intro binade_eqI) simp_all
  then have q: "quantum x = 2 powi (k - 52)" by (simp add: quantum_def)
  have "of_int (steps x) * quantum x \<le> 2 ^ 1023" using b assms by (intro below_1023) simp
  also have "(2::real) ^ 1023 < 2 ^ 1024" by simp
  finally have "\<not> 2 ^ 1024 \<le> of_int (steps x) * quantum x" by simp
  then show ?thesis by (simp add: rnd_steps q)
qed

section \<open>Conversions\<close>

lemma fits_float_iff: "fits_float i \<longleftrightarrow> (\<exists>r. rnd (of_int i) = Fin r)"
  by (auto simp add: fits_float_def split: py_float.splits)

lemma fits_float_bound: "fits_float i \<longleftrightarrow> \<bar>of_int i :: real\<bar> < 2 ^ 1024 - 2 ^ 970"
  by (simp add: fits_float_iff rnd_finite_iff)

lemma to_float_PyFloat [simp]: "to_float (PyFloat f) = Inr f"
  by (simp add: to_float_def)

lemma to_float_PyInt: "fits_float i \<Longrightarrow> \<exists>r. to_float (PyInt i) = Inr (Fin r) \<and> rnd (of_int i) = Fin r"
  by (auto simp add: to_float_def fits_float_iff)

lemma to_float_number: "is_number a \<Longrightarrow> \<exists>f. to_float a = Inr f"
  by (cases a) (auto dest: to_float_PyInt)




section \<open>True division\<close>




section \<open>Multiplication\<close>

lemma py_mul_float_right:
  assumes "to_float a = Inr x"
  shows "py_mul a (PyFloat g) = Inr (PyFloat (float_mul x g))"
  using assms by (cases a) (simp_all add: py_mul_def)

lemma py_mul_float_left:
  assumes "to_float b = Inr y"
  shows "py_mul (PyFloat g) b = Inr (PyFloat (float_mul g y))"
  using assms by (cases b) (simp_all add: py_mul_def)


section \<open>Literals and constants\<close>

lemma rnd_small_ints:
  "rnd 0 = Fin 0" "rnd 5 = Fin 5" "rnd 24 = Fin 24" "rnd 100 = Fin 100" "rnd 105 = Fin 105"
  "rnd 125 = Fin 125" "rnd 200 = Fin 200" "rnd 1000 = Fin 1000"
  using rnd_zero rnd_eval [of 2 5] rnd_eval [of 4 24] rnd_eval [of 6 100] rnd_eval [of 6 105]
    rnd_eval [of 6 125] rnd_eval [of 7 200] rnd_eval [of 9 1000]
  by (simp_all add: rhe_of_int [of 0, simplified] round_half_even_def Let_def)

lemma float_literal_09: "float_literal 0.9 = Fin (8106479329266893 / 2 ^ 53)"
  using rnd_eval [of "-1" "0.9"] by (simp add: float_literal_def round_half_even_def Let_def)

lemma float_literal_128: "float_literal 12.8 = Fin (7205759403792794 / 2 ^ 49)"
  using rnd_eval [of 3 "12.8"] by (simp add: float_literal_def round_half_even_def Let_def)

lemma float_literal_55: "float_literal 5.5 = Fin 5.5"
  using rnd_eval [of 2 "5.5"] by (simp add: float_literal_def round_half_even_def Let_def)

lemmas float_literals = float_literal_09 float_literal_128 float_literal_55

lemma BATTERY_VOLTAGE_num_eq:
  "BATTERY_VOLTAGE_num = PyFloat (Fin (7205759403792794 / 2 ^ 49))"
  by (simp only: BATTERY_VOLTAGE_num_def float_literal_128)





lemma to_float_literals:
  "to_float (PyInt 24) = Inr (Fin 24)" "to_float (PyInt 100) = Inr (Fin 100)"
  "to_float (PyInt 200) = Inr (Fin 200)" "to_float (PyInt 1000) = Inr (Fin 1000)"
  "to_float (PyInt 125) = Inr (Fin 125)" "to_float (PyInt 0) = Inr (Fin 0)"
  by (simp_all add: to_float_def rnd_small_ints)

section \<open>Division and multiplication with one float operand\<close>

lemma py_truediv_float_right:
  assumes "to_float a = Inr x"
  shows "py_truediv a (PyFloat y) =
           (if y = Fin 0 then Inl ZeroDivisionError else Inr (PyFloat (float_div x y)))"
  using assms by (cases a) (simp_all add: py_truediv_def)

lemma py_truediv_float_left:
  assumes "to_float b = Inr y"
  shows "py_truediv (PyFloat x) b =
           (if y = Fin 0 then Inl ZeroDivisionError else Inr (PyFloat (float_div x y)))"
  using assms by (cases b) (simp_all add: py_truediv_def)



section \<open>The chemical energy is not zero\<close>




section \<open>The calls return\<close>










section \<open>Rounding to one decimal\<close>

lemma round_decimal_finite:
  assumes "\<bar>r\<bar> \<le> 2 ^ 1024 - 2 ^ 971"
  shows "\<exists>r'. rnd (of_int (round_half_even (r * 10 ^ 1)) / 10 ^ 1) = Fin r'"
proof (rule rnd_finite)
  let ?n = "of_int (round_half_even (r * 10)) :: real"
  have "\<bar>?n - r * 10\<bar> \<le> 1 / 2" by (rule rhe_near)
  then have "\<bar>?n / 10 - r\<bar> \<le> 1 / 20" by linarith
  then have "\<bar>?n / 10\<bar> \<le> \<bar>r\<bar> + 1 / 20" by linarith
  also have "\<dots> \<le> 2 ^ 1024 - 2 ^ 971 + 1 / 20" using assms by simp
  also have "\<dots> < 2 ^ 1024 - (2::real) ^ 970" by simp
  finally have "\<bar>?n / 10\<bar> < 2 ^ 1024 - 2 ^ 970" .
  then show "\<bar>(of_int (round_half_even (r * 10 ^ 1)) :: real) / 10 ^ 1\<bar> < 2 ^ 1024 - 2 ^ 970"
    by (simp only: power_one_right)
qed

lemma float_mul_Fin:
  assumes "float_mul s (Fin c) = Fin r"
  shows "\<exists>a. s = Fin a \<and> rnd (a * c) = Fin r"
  using assms by (cases s) (auto simp add: float_inf_def split: if_splits)

lemma py_round_product_returns:
  "\<exists>f. py_round (PyFloat (float_mul s (Fin c))) 1 = Inr (PyFloat f)"
proof (cases "float_mul s (Fin c)")
  case (Fin r)
  then obtain a where "rnd (a * c) = Fin r" using float_mul_Fin by blast
  then have "\<bar>r\<bar> \<le> 2 ^ 1024 - 2 ^ 971" by (rule rnd_Fin_bound)
  then obtain r' where "rnd (of_int (round_half_even (r * 10 ^ 1)) / 10 ^ 1) = Fin r'"
    using round_decimal_finite by blast
  with Fin show ?thesis by simp
qed simp_all

section \<open>Peak load coverage\<close>

lemma limit_w: "py_mul (PyInt 200) BATTERY_VOLTAGE_num = Inr (PyFloat (Fin 2560))"
proof -
  have "rnd (200 * (7205759403792794 / 2 ^ 49)) = Fin 2560"
    using rnd_eval [of 11 "200 * (7205759403792794 / 2 ^ 49)"]
    by (simp add: round_half_even_def Let_def)
  then show ?thesis
    unfolding BATTERY_VOLTAGE_num_eq
    by (simp only: py_mul_float_right [OF to_float_literals(3)] float_mul.simps)
qed

lemma peak_current:
  assumes "to_float p = Inr f"
  shows "py_truediv p BATTERY_VOLTAGE_num
           = Inr (PyFloat (float_div f (Fin (7205759403792794 / 2 ^ 49))))"
  unfolding BATTERY_VOLTAGE_num_eq by (simp add: py_truediv_float_right [OF assms])

lemma peak_load_coverage_unfold:
  assumes "to_float p = Inr f"
  shows "peak_load_coverage_num p =
     (if py_le_int (PyFloat (float_div f (Fin (7205759403792794 / 2 ^ 49)))) 200
      then Inr (PyFloat (Fin 100))
      else py_round (PyFloat (float_mul (float_div (Fin 2560) f) (Fin 100))) 1)"
proof (cases "f = Fin 0")
  case True
  then show ?thesis
    by (simp add: peak_load_coverage_num_def peak_current [OF assms] rnd_zero)
next
  case False
  then show ?thesis
    by (simp add: peak_load_coverage_num_def peak_current [OF assms] limit_w
        py_truediv_float_left [OF assms] py_mul_float_left [OF to_float_literals(2)])
qed

lemma peak_load_coverage_returns:
  assumes "is_number p"
  shows "returns (peak_load_coverage_num p)"
proof -
  from assms obtain f where f: "to_float p = Inr f" using to_float_number by blast
  obtain g where "py_round (PyFloat (float_mul (float_div (Fin 2560) f) (Fin 100))) 1
      = Inr (PyFloat g)"
    using py_round_product_returns by blast
  then show ?thesis by (simp add: peak_load_coverage_unfold [OF f])
qed

section \<open>The sum\<close>











section \<open>Non-negative values\<close>










section \<open>Each function on finite non-negative arguments\<close>














section \<open>The sum of non-negative products\<close>








lemma peak_current_converts:
  assumes "py_truediv p BATTERY_VOLTAGE_num = Inr c"
  shows "\<exists>f. to_float p = Inr f \<and> c = PyFloat (float_div f (Fin (7205759403792794 / 2 ^ 49)))"
proof (cases "to_float p")
  case (Inl e)
  then have "py_truediv p (PyFloat (Fin (7205759403792794 / 2 ^ 49))) = Inl e"
    by (cases p) (simp_all add: py_truediv_def)
  with assms show ?thesis by (simp add: BATTERY_VOLTAGE_num_eq)
next
  case (Inr f)
  from assms peak_current [OF Inr] Inr show ?thesis by simp
qed

lemma peak_load_coverage_branches:
  assumes "py_truediv p BATTERY_VOLTAGE_num = Inr c"
  shows "(py_le_int c 200 \<longrightarrow> peak_load_coverage_num p = Inr (PyFloat (Fin 100)))
       \<and> (\<not> py_le_int c 200 \<longrightarrow>
            (\<exists>limit_w share percent.
               py_mul (PyInt 200) BATTERY_VOLTAGE_num = Inr limit_w
             \<and> py_truediv limit_w p = Inr share
             \<and> py_mul share (PyInt 100) = Inr percent
             \<and> peak_load_coverage_num p = py_round percent 1))"
proof -
  from peak_current_converts [OF assms] obtain f where
    f: "to_float p = Inr f" and c: "c = PyFloat (float_div f (Fin (7205759403792794 / 2 ^ 49)))"
    by blast
  show ?thesis
  proof (intro conjI impI)
    assume "py_le_int c 200"
    with c show "peak_load_coverage_num p = Inr (PyFloat (Fin 100))"
      by (simp add: peak_load_coverage_unfold [OF f])
  next
    assume gt: "\<not> py_le_int c 200"
    have nz: "f \<noteq> Fin 0"
    proof
      assume "f = Fin 0"
      with c have "c = PyFloat (Fin 0)" by (simp add: rnd_zero)
      with gt show False by simp
    qed
    have "py_truediv (PyFloat (Fin 2560)) p = Inr (PyFloat (float_div (Fin 2560) f))"
      using nz by (simp add: py_truediv_float_left [OF f])
    moreover have "py_mul (PyFloat (float_div (Fin 2560) f)) (PyInt 100)
        = Inr (PyFloat (float_mul (float_div (Fin 2560) f) (Fin 100)))"
      by (rule py_mul_float_left [OF to_float_literals(2)])
    moreover have "peak_load_coverage_num p
        = py_round (PyFloat (float_mul (float_div (Fin 2560) f) (Fin 100))) 1"
      using gt c by (simp add: peak_load_coverage_unfold [OF f])
    ultimately show "\<exists>limit_w share percent.
               py_mul (PyInt 200) BATTERY_VOLTAGE_num = Inr limit_w
             \<and> py_truediv limit_w p = Inr share
             \<and> py_mul share (PyInt 100) = Inr percent
             \<and> peak_load_coverage_num p = py_round percent 1"
      using limit_w by blast
  qed
qed

lemma py_round_nearest:
  assumes "\<bar>x * 10 - of_int n\<bar> < 1 / 2 \<or> (\<bar>x * 10 - of_int n\<bar> = 1 / 2 \<and> even n)"
  shows "py_round (PyFloat (Fin x)) 1 =
           (case rnd (of_int n / 10) of
              Fin r \<Rightarrow> Inr (PyFloat (Fin r))
            | _ \<Rightarrow> Inl OverflowError)"
proof -
  from assms have "round_half_even (x * 10) = n" by (rule rhe_unique)
  then show ?thesis by simp
qed

lemma to_float_3000: "to_float (PyInt 3000) = Inr (Fin 3000)"
  using rnd_eval [of 11 3000] by (simp add: to_float_def round_half_even_def Let_def)

lemma to_float_2400: "to_float (PyInt 2400) = Inr (Fin 2400)"
  using rnd_eval [of 11 2400] by (simp add: to_float_def round_half_even_def Let_def)

lemma to_float_5120000: "to_float (PyInt 5120000) = Inr (Fin 5120000)"
  using rnd_eval [of 22 5120000] by (simp add: to_float_def round_half_even_def Let_def)

lemma peak_2400: "peak_load_coverage_num (PyInt 2400) = Inr (PyFloat (Fin 100))"
proof -
  have "rnd (2400 / (7205759403792794 / 2 ^ 49)) = Fin (375 / 2)"
    using rnd_eval [of 7 "2400 / (7205759403792794 / 2 ^ 49)"]
    by (simp add: round_half_even_def Let_def)
  then show ?thesis by (simp add: peak_load_coverage_unfold [OF to_float_2400])
qed

lemma peak_3000:
  "peak_load_coverage_num (PyInt 3000) = Inr (PyFloat (Fin (6002453878354739 / 2 ^ 46)))"
proof -
  have c: "rnd (3000 / (7205759403792794 / 2 ^ 49)) = Fin (1875 / 8)"
    using rnd_eval [of 7 "3000 / (7205759403792794 / 2 ^ 49)"]
    by (simp add: round_half_even_def Let_def)
  have share: "rnd (2560 / 3000) = Fin (7686143364045647 / 2 ^ 53)"
    using rnd_eval [of "- 1" "2560 / 3000"] by (simp add: round_half_even_def Let_def)
  have percent: "rnd (7686143364045647 / 2 ^ 53 * 100) = Fin (6004799503160662 / 2 ^ 46)"
    using rnd_eval [of 6 "7686143364045647 / 2 ^ 53 * 100"]
    by (simp add: round_half_even_def Let_def)
  have rounded: "rnd (of_int (round_half_even (6004799503160662 / 2 ^ 46 * 10 ^ 1)) / 10 ^ 1)
      = Fin (6002453878354739 / 2 ^ 46)"
    using rnd_eval [of 6 "853 / 10"] by (simp add: round_half_even_def Let_def)
  show ?thesis
    using c share percent rounded by (simp add: peak_load_coverage_unfold [OF to_float_3000])
qed

lemma peak_5120000:
  "peak_load_coverage_num (PyInt 5120000) = Inr (PyFloat (Fin (3602879701896397 / 2 ^ 55)))"
proof -
  have c: "rnd (5120000 / (7205759403792794 / 2 ^ 49)) = Fin 400000"
    using rnd_eval [of 18 "5120000 / (7205759403792794 / 2 ^ 49)"]
    by (simp add: round_half_even_def Let_def)
  have share: "rnd (2560 / 5120000) = Fin (4611686018427388 / 2 ^ 63)"
    using rnd_eval [of "- 11" "2560 / 5120000"] by (simp add: round_half_even_def Let_def)
  have percent: "rnd (4611686018427388 / 2 ^ 63 * 100) = Fin (7205759403792794 / 2 ^ 57)"
    using rnd_eval [of "- 5" "4611686018427388 / 2 ^ 63 * 100"]
    by (simp add: round_half_even_def Let_def)
  have rounded: "rnd (of_int (round_half_even (7205759403792794 / 2 ^ 57 * 10 ^ 1)) / 10 ^ 1)
      = Fin (3602879701896397 / 2 ^ 55)"
    using rnd_eval [of "- 4" "1 / 10"] by (simp add: round_half_even_def Let_def)
  show ?thesis
    using c share percent rounded by (simp add: peak_load_coverage_unfold [OF to_float_5120000])
qed

lemma float_literal_853: "float_literal 85.3 = Fin (6002453878354739 / 2 ^ 46)"
  using rnd_eval [of 6 "85.3"] by (simp add: float_literal_def round_half_even_def Let_def)

lemma float_literal_01: "float_literal 0.1 = Fin (3602879701896397 / 2 ^ 55)"
  using rnd_eval [of "- 4" "0.1"] by (simp add: float_literal_def round_half_even_def Let_def)

lemma fits_float_million: "\<bar>i\<bar> \<le> 1000000 \<Longrightarrow> fits_float i"
proof -
  assume "\<bar>i\<bar> \<le> 1000000"
  then have "\<bar>of_int i :: real\<bar> \<le> 1000000" by (metis of_int_abs of_int_le_iff of_int_numeral)
  moreover have "(1000000::real) < 2 ^ 1024 - 2 ^ 970" by simp
  ultimately show ?thesis by (simp only: fits_float_bound)
qed



section \<open>Arguments beyond the float range\<close>




lemma calculate_methanol_consumption_unfit:
  assumes "2 ^ 1024 - 2 ^ 970 \<le> \<bar>of_int i / 1000 :: real\<bar>"
  shows "calculate_methanol_consumption_num (PyInt i) = Inl OverflowError"
proof -
  from rnd_overflow [OF assms]
  have "rnd (of_int i / of_int 1000) = PosInf \<or> rnd (of_int i / of_int 1000) = NegInf"
    by (simp split: if_splits)
  then show ?thesis
    by (auto simp add: calculate_methanol_consumption_num_def py_truediv_def)
qed

lemma calculate_methanol_consumption_overflow:
  "calculate_methanol_consumption_num (PyInt (10 ^ 400)) = Inl OverflowError"
  using calculate_methanol_consumption_unfit [of "10 ^ 400"] by simp




section \<open>Peak load coverage\<close>

text \<open>
  Claim C6. For every \<open>peak_power_w\<close>: when the quotient \<open>peak_power_w / BATTERY_VOLTAGE\<close>
  is at most 200 the function returns 100.0; otherwise it returns
  \<open>round(200 * BATTERY_VOLTAGE / peak_power_w * 100, 1)\<close>, each operation being the one of
  Python. The rounding is to one decimal place: the result is the float nearest to
  \<open>n / 10\<close>, where \<open>n\<close> is the integer nearest to ten times the percentage, a tie going to
  the even \<open>n\<close>. The call returns for every number. With \<open>BATTERY_VOLTAGE = 12.8\<close>,
  \<open>peak_load_coverage(2400)\<close> is 100.0 and \<open>peak_load_coverage(3000)\<close> is the float 85.3;
  at 5120000, where the percentage is the float 0.05, the result is the float 0.1.
\<close>

theorem peak_load_coverage_cases:
  "(\<forall>peak_power_w peak_current.
      py_truediv peak_power_w BATTERY_VOLTAGE_num = Inr peak_current \<longrightarrow>
        (py_le_int peak_current 200 \<longrightarrow>
           peak_load_coverage_num peak_power_w = Inr (PyFloat (Fin 100)))
      \<and> (\<not> py_le_int peak_current 200 \<longrightarrow>
           (\<exists>limit_w share percent.
              py_mul (PyInt 200) BATTERY_VOLTAGE_num = Inr limit_w
            \<and> py_truediv limit_w peak_power_w = Inr share
            \<and> py_mul share (PyInt 100) = Inr percent
            \<and> peak_load_coverage_num peak_power_w = py_round percent 1)))
   \<and> (\<forall>x n. \<bar>x * 10 - of_int n\<bar> < 1 / 2 \<or> (\<bar>x * 10 - of_int n\<bar> = 1 / 2 \<and> even n) \<longrightarrow>
        py_round (PyFloat (Fin x)) 1 =
          (case float_literal (of_int n / 10) of
             Fin r \<Rightarrow> Inr (PyFloat (Fin r))
           | _ \<Rightarrow> Inl OverflowError))
   \<and> (\<forall>peak_power_w. is_number peak_power_w \<longrightarrow> returns (peak_load_coverage_num peak_power_w))
   \<and> BATTERY_VOLTAGE_num = PyFloat (float_literal 12.8)
   \<and> float_literal 12.8 = Fin (7205759403792794 / 2 ^ 49)
   \<and> peak_load_coverage_num (PyInt 2400) = Inr (PyFloat (Fin 100))
   \<and> peak_load_coverage_num (PyInt 3000) = Inr (PyFloat (float_literal 85.3))
   \<and> float_literal 85.3 = Fin (6002453878354739 / 2 ^ 46)
   \<and> peak_load_coverage_num (PyInt 5120000) = Inr (PyFloat (float_literal 0.1))
   \<and> float_literal 0.1 = Fin (3602879701896397 / 2 ^ 55)"
proof (intro conjI allI impI)
  fix peak_power_w peak_current
  assume c: "py_truediv peak_power_w BATTERY_VOLTAGE_num = Inr peak_current"
  assume "py_le_int peak_current 200"
  with peak_load_coverage_branches [OF c]
  show "peak_load_coverage_num peak_power_w = Inr (PyFloat (Fin 100))" by blast
next
  fix peak_power_w peak_current
  assume c: "py_truediv peak_power_w BATTERY_VOLTAGE_num = Inr peak_current"
  assume "\<not> py_le_int peak_current 200"
  with peak_load_coverage_branches [OF c]
  show "\<exists>limit_w share percent.
              py_mul (PyInt 200) BATTERY_VOLTAGE_num = Inr limit_w
            \<and> py_truediv limit_w peak_power_w = Inr share
            \<and> py_mul share (PyInt 100) = Inr percent
            \<and> peak_load_coverage_num peak_power_w = py_round percent 1" by blast
next
  fix x :: real and n :: int
  assume "\<bar>x * 10 - of_int n\<bar> < 1 / 2 \<or> (\<bar>x * 10 - of_int n\<bar> = 1 / 2 \<and> even n)"
  then show "py_round (PyFloat (Fin x)) 1 =
          (case float_literal (of_int n / 10) of
             Fin r \<Rightarrow> Inr (PyFloat (Fin r))
           | _ \<Rightarrow> Inl OverflowError)"
    unfolding float_literal_def by (rule py_round_nearest)
next
  fix peak_power_w
  assume "is_number peak_power_w"
  then show "returns (peak_load_coverage_num peak_power_w)" by (rule peak_load_coverage_returns)
next
  show "BATTERY_VOLTAGE_num = PyFloat (float_literal 12.8)" by (rule BATTERY_VOLTAGE_num_def)
next
  show "float_literal 12.8 = Fin (7205759403792794 / 2 ^ 49)" by (rule float_literal_128)
next
  show "peak_load_coverage_num (PyInt 2400) = Inr (PyFloat (Fin 100))" by (rule peak_2400)
next
  show "peak_load_coverage_num (PyInt 3000) = Inr (PyFloat (float_literal 85.3))"
    by (simp only: peak_3000 float_literal_853)
next
  show "float_literal 85.3 = Fin (6002453878354739 / 2 ^ 46)" by (rule float_literal_853)
next
  show "peak_load_coverage_num (PyInt 5120000) = Inr (PyFloat (float_literal 0.1))"
    by (simp only: peak_5120000 float_literal_01)
next
  show "float_literal 0.1 = Fin (3602879701896397 / 2 ^ 55)" by (rule float_literal_01)
qed

text \<open>
  At 3000 W the peak current is 234.375 A, above the limit; the percentage
  \<open>6004799503160662 / 2 ^ 46\<close> (85.33333333333334) is nearest to \<open>853 / 10\<close>.
\<close>

lemma peak_current_3000:
  "py_truediv (PyInt 3000) BATTERY_VOLTAGE_num = Inr (PyFloat (Fin (1875 / 8)))"
proof -
  have "rnd (3000 / (7205759403792794 / 2 ^ 49)) = Fin (1875 / 8)"
    using rnd_eval [of 7 "3000 / (7205759403792794 / 2 ^ 49)"]
    by (simp add: round_half_even_def Let_def)
  then show ?thesis by (simp add: peak_current [OF to_float_3000])
qed

theorem peak_load_coverage_cases_witness:
  "py_truediv (PyInt 3000) BATTERY_VOLTAGE_num = Inr (PyFloat (Fin (1875 / 8)))
   \<and> \<not> py_le_int (PyFloat (Fin (1875 / 8))) 200
   \<and> (\<exists>limit_w share percent.
          py_mul (PyInt 200) BATTERY_VOLTAGE_num = Inr limit_w
        \<and> py_truediv limit_w (PyInt 3000) = Inr share
        \<and> py_mul share (PyInt 100) = Inr percent
        \<and> peak_load_coverage_num (PyInt 3000) = py_round percent 1)
   \<and> \<bar>(6004799503160662 / 2 ^ 46 :: real) * 10 - of_int 853\<bar> < 1 / 2
   \<and> py_round (PyFloat (Fin (6004799503160662 / 2 ^ 46))) 1 =
        (case float_literal (of_int 853 / 10) of
           Fin r \<Rightarrow> Inr (PyFloat (Fin r))
         | _ \<Rightarrow> Inl OverflowError)
   \<and> is_number (PyInt 3000)
   \<and> returns (peak_load_coverage_num (PyInt 3000))"
proof -
  note general = peak_load_coverage_cases [THEN conjunct1, rule_format,
      of "PyInt 3000" "PyFloat (Fin (1875 / 8))"]
  note rounding = peak_load_coverage_cases [THEN conjunct2, THEN conjunct1, rule_format,
      of "6004799503160662 / 2 ^ 46" 853]
  note total = peak_load_coverage_cases [THEN conjunct2, THEN conjunct2, THEN conjunct1,
      rule_format, of "PyInt 3000"]
  have gt: "\<not> py_le_int (PyFloat (Fin (1875 / 8))) 200" by simp
  have near: "\<bar>(6004799503160662 / 2 ^ 46 :: real) * 10 - of_int 853\<bar> < 1 / 2" by simp
  have num: "is_number (PyInt 3000)" by (simp add: fits_float_million)
  from general [OF peak_current_3000] gt
  have branch: "\<exists>limit_w share percent.
          py_mul (PyInt 200) BATTERY_VOLTAGE_num = Inr limit_w
        \<and> py_truediv limit_w (PyInt 3000) = Inr share
        \<and> py_mul share (PyInt 100) = Inr percent
        \<and> peak_load_coverage_num (PyInt 3000) = py_round percent 1" by blast
  from near have "\<bar>(6004799503160662 / 2 ^ 46 :: real) * 10 - of_int 853\<bar> < 1 / 2
      \<or> (\<bar>(6004799503160662 / 2 ^ 46 :: real) * 10 - of_int 853\<bar> = 1 / 2 \<and> even (853::int))"
    by (rule disjI1)
  note r = rounding [OF this]
  show ?thesis
    using peak_current_3000 gt branch near r num total [OF num] by (intro conjI)
qed

section \<open>Totality\<close>




section \<open>Non-negative results\<close>




end
